theory Spec2Isabelle
  imports Complex_Main
begin

section \<open>JavaScript values that reach the server\<close>

text \<open>
  The server receives JSON (HTTP bodies through \<^verbatim>\<open>express.json\<close>, MQTT payloads through
  \<^verbatim>\<open>JSON.parse\<close>), so the fields it destructures are JSON values or \<^verbatim>\<open>undefined\<close>.

  A finite number is modelled by its exact rational value: the rounding of a decimal
  literal to binary64 changes which number is stored, never which branch the server takes.
  \<^verbatim>\<open>+0\<close> and \<^verbatim>\<open>-0\<close> are one value (both are falsy, and \<^verbatim>\<open>Map\<close> keys compare them equal).

  An array or an object is \<open>Object r s\<close>: \<open>r\<close> is its identity (what \<^verbatim>\<open>Map\<close> compares) and
  \<open>s\<close> the result of its \<^verbatim>\<open>toString()\<close> (what \<^verbatim>\<open>parseFloat\<close> and \<^verbatim>\<open>parseInt\<close> read).
\<close>

datatype jsnum = NaN | PosInf | NegInf | Fin rat

datatype jsval =
    Undefined
  | Null
  | Bool bool
  | Num jsnum
  | Str string
  | Object nat string

text \<open>An object is read by property name; a property that is absent reads \<^verbatim>\<open>undefined\<close>.\<close>

type_synonym jsobject = "string \<Rightarrow> jsval"

definition empty_object :: jsobject where
  "empty_object = (\<lambda>_. Undefined)"

text \<open>\<^verbatim>\<open>!v\<close> is true exactly for the falsy values.\<close>

fun truthy :: "jsval \<Rightarrow> bool" where
  "truthy Undefined = False"
| "truthy Null = False"
| "truthy (Bool b) = b"
| "truthy (Num n) = (n \<noteq> NaN \<and> n \<noteq> Fin 0)"
| "truthy (Str s) = (s \<noteq> [])"
| "truthy (Object r s) = True"

subsection \<open>\<^verbatim>\<open>parseFloat\<close> and \<^verbatim>\<open>parseInt\<close>\<close>

definition is_ws :: "char \<Rightarrow> bool" where
  "is_ws c \<longleftrightarrow> c \<in> set [CHR '' '', CHR 0x09, CHR 0x0A, CHR 0x0B, CHR 0x0C, CHR 0x0D]"

definition is_digit :: "char \<Rightarrow> bool" where
  "is_digit c \<longleftrightarrow> c \<in> set ''0123456789''"

definition digit_val :: "char \<Rightarrow> nat" where
  "digit_val c =
     (if c \<in> set ''0123456789'' then of_char c - 48
      else if c \<in> set ''abcdef'' then of_char c - 87
      else of_char c - 55)"

definition digits_val :: "nat \<Rightarrow> string \<Rightarrow> nat" where
  "digits_val radix ds = foldl (\<lambda>a c. radix * a + digit_val c) 0 ds"

text \<open>An optional sign in front of the rest of the string.\<close>

fun split_sign :: "string \<Rightarrow> bool \<times> string" where
  "split_sign [] = (False, [])"
| "split_sign (c # r) =
     (if c = CHR ''-'' then (True, r)
      else if c = CHR ''+'' then (False, r)
      else (False, c # r))"

text \<open>The exponent part \<^verbatim>\<open>e[+-]digits\<close>; without a digit there is no exponent part.\<close>

fun exponent_of :: "string \<Rightarrow> int" where
  "exponent_of [] = 0"
| "exponent_of (c # r) =
     (if c = CHR ''e'' \<or> c = CHR ''E'' then
        (case split_sign r of
           (neg, r') \<Rightarrow>
             let ds = takeWhile is_digit r' in
             if ds = [] then 0
             else if neg then - int (digits_val 10 ds)
             else int (digits_val 10 ds))
      else 0)"

text \<open>
  \<^verbatim>\<open>parseFloat\<close> of a string: leading white space is skipped, then the longest prefix
  that is a decimal literal is read; \<^verbatim>\<open>NaN\<close> when there is none. (Strings are byte
  strings here, and \<open>is_ws\<close> knows the ASCII white space only.)
\<close>

definition parseFloat_str :: "string \<Rightarrow> jsnum" where
  "parseFloat_str s =
     (case split_sign (dropWhile is_ws s) of
        (neg, u) \<Rightarrow>
          if take 8 u = ''Infinity'' then (if neg then NegInf else PosInf)
          else
            let ip = takeWhile is_digit u;
                r1 = dropWhile is_digit u;
                dot = (r1 \<noteq> [] \<and> hd r1 = CHR ''.'');
                fp = (if dot then takeWhile is_digit (tl r1) else []);
                r2 = (if dot then dropWhile is_digit (tl r1) else r1)
            in
              if ip = [] \<and> fp = [] then NaN
              else
                let m = (of_nat (digits_val 10 (ip @ fp)) :: rat) / 10 ^ length fp;
                    e = exponent_of r2;
                    v = (if 0 \<le> e then m * 10 ^ nat e else m / 10 ^ nat (- e))
                in Fin (if neg then - v else v))"

text \<open>
  \<^verbatim>\<open>parseInt\<close> of a string, no radix given: white space, sign, \<^verbatim>\<open>0x\<close> for base 16, then
  the longest run of digits; \<^verbatim>\<open>NaN\<close> when there is none.
\<close>

definition is_hex_digit :: "char \<Rightarrow> bool" where
  "is_hex_digit c \<longleftrightarrow> c \<in> set ''0123456789abcdefABCDEF''"

definition parseInt_str :: "string \<Rightarrow> jsnum" where
  "parseInt_str s =
     (case split_sign (dropWhile is_ws s) of
        (neg, u) \<Rightarrow>
          let hex = (take 2 u = ''0x'' \<or> take 2 u = ''0X'');
              ds = (if hex then takeWhile is_hex_digit (drop 2 u) else takeWhile is_digit u);
              n = int (digits_val (if hex then 16 else 10) ds)
          in if ds = [] then NaN else Fin (of_int (if neg then - n else n)))"

text \<open>
  On a number both functions read its decimal printing. \<^verbatim>\<open>parseFloat\<close> gets the number
  back. \<^verbatim>\<open>parseInt\<close> stops at the first character that is no digit: the decimal point
  of a number printed in plain notation (magnitude from \<open>10\<^sup>-\<^sup>6\<close> up to \<open>10\<^sup>2\<^sup>1\<close>), which
  truncates it towards zero, or the point or \<^verbatim>\<open>e\<close> after the first digit of a number
  printed in exponent notation. (The first digit is taken from the exact value here; the
  shortest printing of a binary64 can round it up, as in \<^verbatim>\<open>1e23\<close>.)
\<close>

function first_digit :: "nat \<Rightarrow> nat" where
  "first_digit n = (if n < 10 then n else first_digit (n div 10))"
  by pat_completeness auto
termination
  by (relation "measure (\<lambda>n. n)") auto

text \<open>The first significant digit of \<open>a / b\<close> when \<open>0 < a < b\<close>.\<close>

function first_digit_frac :: "nat \<Rightarrow> nat \<Rightarrow> nat" where
  "first_digit_frac a b =
     (if a = 0 \<or> b \<le> a then a div b else first_digit_frac (10 * a) b)"
  by pat_completeness auto
termination
  by (relation "measure (\<lambda>(a, b). b - a)") auto

definition parseInt_num :: "jsnum \<Rightarrow> jsnum" where
  "parseInt_num n =
     (case n of
        Fin x \<Rightarrow>
          let m = \<bar>x\<bar>;
              d = (if m = 0 then 0
                   else if m < 1 / 10 ^ 6 then
                     (case quotient_of m of (a, b) \<Rightarrow> int (first_digit_frac (nat a) (nat b)))
                   else if m < 10 ^ 21 then \<lfloor>m\<rfloor>
                   else int (first_digit (nat \<lfloor>m\<rfloor>)))
          in Fin (of_int (if x < 0 then - d else d))
      | _ \<Rightarrow> NaN)"

text \<open>
  Other values are converted to a string first: \<^verbatim>\<open>undefined\<close>, \<^verbatim>\<open>null\<close>, \<^verbatim>\<open>true\<close> and
  \<^verbatim>\<open>false\<close> print as words with no numeric prefix.
\<close>

fun parseFloat :: "jsval \<Rightarrow> jsnum" where
  "parseFloat (Num n) = n"
| "parseFloat (Str s) = parseFloat_str s"
| "parseFloat (Object r s) = parseFloat_str s"
| "parseFloat Undefined = NaN"
| "parseFloat Null = NaN"
| "parseFloat (Bool b) = NaN"

fun parseInt :: "jsval \<Rightarrow> jsnum" where
  "parseInt (Num n) = parseInt_num n"
| "parseInt (Str s) = parseInt_str s"
| "parseInt (Object r s) = parseInt_str s"
| "parseInt Undefined = NaN"
| "parseInt Null = NaN"
| "parseInt (Bool b) = NaN"

text \<open>\<^verbatim>\<open>n || 0\<close> for a number \<open>n\<close>: \<^verbatim>\<open>NaN\<close> and \<^verbatim>\<open>0\<close> are falsy.\<close>

definition or_zero :: "jsnum \<Rightarrow> jsnum" where
  "or_zero n = (if truthy (Num n) then n else Fin 0)"

section \<open>Location processing\<close>

text \<open>The position object built by \<^verbatim>\<open>processLocationUpdate\<close>.\<close>

record position =
  device_id :: jsval
  lat :: jsnum
  lng :: jsnum
  speed :: jsnum
  heading :: jsnum
  sats :: jsnum
  timestamp :: jsval

text \<open>
  The first part of \<^verbatim>\<open>processLocationUpdate\<close>: the destructuring of \<^verbatim>\<open>data\<close>, the guard
  that returns early, and the position literal. \<open>now\<close> is what \<^verbatim>\<open>Date.now()\<close> returns.
  \<open>None\<close> is the early return.
\<close>

definition build_position :: "int \<Rightarrow> jsobject \<Rightarrow> position option" where
  "build_position now data =
     (if \<not> truthy (data ''device_id'') \<or> \<not> truthy (data ''lat'') \<or> \<not> truthy (data ''lng'')
      then None
      else Some \<lparr>
        device_id = data ''device_id'',
        lat = parseFloat (data ''lat''),
        lng = parseFloat (data ''lng''),
        speed = or_zero (parseFloat (data ''speed'')),
        heading = or_zero (parseInt (data ''heading'')),
        sats = or_zero (parseInt (data ''sats'')),
        timestamp = (if truthy (data ''ts'') then data ''ts'' else Num (Fin (of_int now))) \<rparr>)"

section \<open>Server state\<close>

subsection \<open>\<^verbatim>\<open>Map\<close> and \<^verbatim>\<open>Set\<close>\<close>

text \<open>
  A JavaScript \<^verbatim>\<open>Map\<close> keeps its entries in the order in which their keys were first
  inserted; \<^verbatim>\<open>set\<close> on a key that is present replaces the value in place. A \<^verbatim>\<open>Set\<close> keeps
  its elements in insertion order, each once.
\<close>

type_synonym ('k, 'v) jsmap = "('k \<times> 'v) list"

fun map_set :: "'k \<Rightarrow> 'v \<Rightarrow> ('k, 'v) jsmap \<Rightarrow> ('k, 'v) jsmap" where
  "map_set k v [] = [(k, v)]"
| "map_set k v ((k', v') # m) = (if k' = k then (k, v) # m else (k', v') # map_set k v m)"

definition map_has :: "'k \<Rightarrow> ('k, 'v) jsmap \<Rightarrow> bool" where
  "map_has k m \<longleftrightarrow> map_of m k \<noteq> None"

definition map_get :: "'k \<Rightarrow> ('k, 'v) jsmap \<Rightarrow> 'v option" where
  "map_get k m = map_of m k"

definition map_values :: "('k, 'v) jsmap \<Rightarrow> 'v list" where
  "map_values m = map snd m"

definition set_add :: "'a \<Rightarrow> 'a list \<Rightarrow> 'a list" where
  "set_add x xs = (if x \<in> set xs then xs else xs @ [x])"

definition set_delete :: "'a \<Rightarrow> 'a list \<Rightarrow> 'a list" where
  "set_delete x xs = filter (\<lambda>y. y \<noteq> x) xs"

text \<open>
  \<^verbatim>\<open>xs.splice(0, n)\<close>: the delete count is clamped to the range from 0 to the length,
  and that many elements are removed from the front.
\<close>

definition splice0 :: "int \<Rightarrow> 'a list \<Rightarrow> 'a list" where
  "splice0 n xs = drop (nat (min (max n 0) (int (length xs)))) xs"

subsection \<open>Configuration, sockets, database statements\<close>

record config =
  deviceToken :: string
  historyPoints :: int
  onlineWindowS :: int

text \<open>A WebSocket is known by its identity; the library owns its \<^verbatim>\<open>readyState\<close>.\<close>

type_synonym ws = nat

datatype ready_state = CONNECTING | OPEN | CLOSING | CLOSED

text \<open>
  The two messages of the push channel, before \<^verbatim>\<open>JSON.stringify\<close>:
  \<^verbatim>\<open>{type: 'snapshot', devices}\<close> and \<^verbatim>\<open>{type: 'update', device}\<close>.
\<close>

datatype message = Snapshot "position list" | Update position

text \<open>
  The statements \<^verbatim>\<open>updateDatabase\<close> hands to \<^verbatim>\<open>db.run\<close>, with their parameters. They run
  later, on the database; the server state below records that they were issued.
\<close>

datatype db_stmt =
    UpdateDevice position
  | InsertPosition position
  | Cleanup jsval int

record state =
  devicePositions :: "(jsval, position) jsmap"
  deviceHistory :: "(jsval, position list) jsmap"
  wsClients :: "ws list"
  totalDevices :: nat
  totalPositions :: nat
  stats_wsClients :: nat
  readyState :: "ws \<Rightarrow> ready_state"
  sent :: "ws \<Rightarrow> message list"
  db_runs :: "db_stmt list"

text \<open>The state at start-up: empty maps, counters at zero, no socket, nothing sent.\<close>

definition init_state :: state where
  "init_state = \<lparr>
     devicePositions = [], deviceHistory = [], wsClients = [],
     totalDevices = 0, totalPositions = 0, stats_wsClients = 0,
     readyState = (\<lambda>_. CONNECTING), sent = (\<lambda>_. []), db_runs = [] \<rparr>"

subsection \<open>\<^verbatim>\<open>updateDatabase\<close> and \<^verbatim>\<open>broadcastUpdate\<close>\<close>

definition updateDatabase :: "config \<Rightarrow> position \<Rightarrow> state \<Rightarrow> state" where
  "updateDatabase cfg position s =
     s\<lparr>db_runs := db_runs s @
         [UpdateDevice position, InsertPosition position,
          Cleanup (device_id position) (historyPoints cfg)]\<rparr>"

text \<open>\<^verbatim>\<open>ws.send(m)\<close>: the message reaches a socket that is open, and no other.\<close>

definition ws_send :: "ws \<Rightarrow> message \<Rightarrow> state \<Rightarrow> state" where
  "ws_send w m s =
     (if readyState s w = OPEN then s\<lparr>sent := (sent s)(w := sent s w @ [m])\<rparr> else s)"

definition broadcastUpdate :: "position \<Rightarrow> state \<Rightarrow> state" where
  "broadcastUpdate position s =
     fold (\<lambda>w s'. if readyState s' w = OPEN then ws_send w (Update position) s' else s')
       (wsClients s) s"

subsection \<open>\<^verbatim>\<open>processLocationUpdate\<close>\<close>

text \<open>The pruning of a history array to the configured limit, after the push.\<close>

definition prune_history :: "config \<Rightarrow> position list \<Rightarrow> position list" where
  "prune_history cfg history =
     (if int (length history) > historyPoints cfg
      then splice0 (int (length history) - historyPoints cfg) history
      else history)"

text \<open>
  The function proper. \<open>now\<close> is the clock at the call. The history array is changed in
  place by \<^verbatim>\<open>push\<close> and \<^verbatim>\<open>splice\<close>; nothing else holds it, so the model stores the new
  array under the key. \<^verbatim>\<open>deviceHistory.get\<close> cannot miss after the \<^verbatim>\<open>set\<close> before it.
\<close>

definition processLocationUpdate :: "config \<Rightarrow> int \<Rightarrow> jsobject \<Rightarrow> state \<Rightarrow> state" where
  "processLocationUpdate cfg now data s =
     (case build_position now data of
        None \<Rightarrow> s
      | Some position \<Rightarrow>
          let d = device_id position;
              s1 = s\<lparr>devicePositions := map_set d position (devicePositions s)\<rparr>;
              s2 = (if \<not> map_has d (deviceHistory s1)
                    then s1\<lparr>deviceHistory := map_set d [] (deviceHistory s1)\<rparr> else s1);
              history = (case map_get d (deviceHistory s2) of Some h \<Rightarrow> h | None \<Rightarrow> []) @ [position];
              s3 = s2\<lparr>deviceHistory := map_set d (prune_history cfg history) (deviceHistory s2)\<rparr>;
              s4 = updateDatabase cfg position s3;
              s5 = broadcastUpdate position s4;
              s6 = s5\<lparr>totalPositions := totalPositions s5 + 1\<rparr>
          in if \<not> map_has d (devicePositions s6)
             then s6\<lparr>totalDevices := totalDevices s6 + 1\<rparr> else s6)"

subsection \<open>WebSocket handlers\<close>

text \<open>The \<^verbatim>\<open>connection\<close> handler of \<^verbatim>\<open>initializeWebSocket\<close>.\<close>

definition on_connection :: "ws \<Rightarrow> state \<Rightarrow> state" where
  "on_connection w s =
     (let s1 = s\<lparr>wsClients := set_add w (wsClients s)\<rparr>;
          s2 = s1\<lparr>stats_wsClients := length (wsClients s1)\<rparr>;
          currentPositions = map_values (devicePositions s2)
      in if length currentPositions > 0 then ws_send w (Snapshot currentPositions) s2 else s2)"

text \<open>The \<^verbatim>\<open>close\<close> and \<^verbatim>\<open>error\<close> handlers of a socket have the same body.\<close>

definition on_close :: "ws \<Rightarrow> state \<Rightarrow> state" where
  "on_close w s =
     (let s1 = s\<lparr>wsClients := set_delete w (wsClients s)\<rparr>
      in s1\<lparr>stats_wsClients := length (wsClients s1)\<rparr>)"

section \<open>HTTP routes\<close>

text \<open>
  The model starts where a route handler starts: the middleware before it (security
  headers, CORS, body parsing, rate limits) has let the request through.

  What the \<^verbatim>\<open>/api/track\<close> handler reads of a request: the parsed body,
  \<^verbatim>\<open>req.headers['x-device-token']\<close> and \<^verbatim>\<open>req.query.token\<close>.
\<close>

record request =
  body :: jsobject
  header_token :: jsval
  query_token :: jsval

text \<open>
  A response: \<^verbatim>\<open>res.status(n).json(...)\<close> with \<^verbatim>\<open>{success: false, error}\<close> or
  \<^verbatim>\<open>{success: true, message}\<close>; \<^verbatim>\<open>res.json\<close> alone answers 200.
\<close>

datatype res_json = Failure string | Success string

record response =
  status :: nat
  json :: res_json

text \<open>\<^verbatim>\<open>a || b\<close>.\<close>

definition js_or :: "jsval \<Rightarrow> jsval \<Rightarrow> jsval" where
  "js_or a b = (if truthy a then a else b)"

definition post_track :: "config \<Rightarrow> int \<Rightarrow> request \<Rightarrow> state \<Rightarrow> response \<times> state" where
  "post_track cfg now req s =
     (if \<not> truthy (body req ''device_id'') \<or> \<not> truthy (body req ''lat'')
         \<or> \<not> truthy (body req ''lng'')
      then (\<lparr>status = 400,
              json = Failure ''Missing required fields: device_id, lat, lng''\<rparr>, s)
      else
        let token = js_or (header_token req) (query_token req) in
        if token \<noteq> Str (deviceToken cfg)
        then (\<lparr>status = 401, json = Failure ''Invalid device token''\<rparr>, s)
        else (\<lparr>status = 200, json = Success ''Position updated successfully''\<rparr>,
              processLocationUpdate cfg now (body req) s))"

text \<open>\<^verbatim>\<open>GET /api/positions\<close>: the count and the devices of the response.\<close>

definition get_positions :: "state \<Rightarrow> nat \<times> position list" where
  "get_positions s = (let positions = map_values (devicePositions s) in (length positions, positions))"

text \<open>\<^verbatim>\<open>GET /api/stats\<close>: the two ingestion counters of the response.\<close>

definition get_stats :: "state \<Rightarrow> nat \<times> nat" where
  "get_stats s = (totalDevices s, totalPositions s)"

section \<open>Events\<close>

text \<open>
  Node runs one handler at a time, to completion. An execution of the server is the list
  of the events it handled: a \<^verbatim>\<open>POST /api/track\<close>, an MQTT message that parsed as
  an object, a new WebSocket connection, the \<^verbatim>\<open>close\<close> or \<^verbatim>\<open>error\<close> of a socket, and a
  change of a socket's \<^verbatim>\<open>readyState\<close> by the library. The heartbeat's removal of a dead
  socket is a \<open>SocketState\<close> followed by the body of \<open>on_close\<close>.
\<close>

datatype event =
    HttpTrack request int
  | MqttMessage jsobject int
  | WsConnection ws
  | WsClose ws
  | WsError ws
  | SocketState ws ready_state

fun step :: "config \<Rightarrow> event \<Rightarrow> state \<Rightarrow> state" where
  "step cfg (HttpTrack req now) s = snd (post_track cfg now req s)"
| "step cfg (MqttMessage data now) s = processLocationUpdate cfg now data s"
| "step cfg (WsConnection w) s = on_connection w (s\<lparr>readyState := (readyState s)(w := OPEN)\<rparr>)"
| "step cfg (WsClose w) s = on_close w (s\<lparr>readyState := (readyState s)(w := CLOSED)\<rparr>)"
| "step cfg (WsError w) s = on_close w s"
| "step cfg (SocketState w r) s = s\<lparr>readyState := (readyState s)(w := r)\<rparr>"

definition run :: "config \<Rightarrow> event list \<Rightarrow> state \<Rightarrow> state" where
  "run cfg evs s = foldl (\<lambda>s' e. step cfg e s') s evs"

section \<open>Accepted records\<close>

text \<open>
  A record is accepted when it passes the guard of \<^verbatim>\<open>processLocationUpdate\<close>; over HTTP
  the handler calls \<^verbatim>\<open>processLocationUpdate\<close> only behind its own two checks. The
  accepted records of an execution, in arrival order:
\<close>

definition token_ok :: "config \<Rightarrow> request \<Rightarrow> bool" where
  "token_ok cfg req \<longleftrightarrow> js_or (header_token req) (query_token req) = Str (deviceToken cfg)"

fun accepted_of :: "config \<Rightarrow> event \<Rightarrow> position list" where
  "accepted_of cfg (HttpTrack req now) =
     (if token_ok cfg req then (case build_position now (body req) of None \<Rightarrow> [] | Some p \<Rightarrow> [p])
      else [])"
| "accepted_of cfg (MqttMessage data now) =
     (case build_position now data of None \<Rightarrow> [] | Some p \<Rightarrow> [p])"
| "accepted_of cfg (WsConnection w) = []"
| "accepted_of cfg (WsClose w) = []"
| "accepted_of cfg (WsError w) = []"
| "accepted_of cfg (SocketState w r) = []"

definition accepted_records :: "config \<Rightarrow> event list \<Rightarrow> position list" where
  "accepted_records cfg evs = concat (map (accepted_of cfg) evs)"

definition records_of :: "jsval \<Rightarrow> position list \<Rightarrow> position list" where
  "records_of d recs = filter (\<lambda>p. device_id p = d) recs"

text \<open>The history array of a device; a device without an array has no history.\<close>

definition history_of :: "jsval \<Rightarrow> state \<Rightarrow> position list" where
  "history_of d s = (case map_get d (deviceHistory s) of Some h \<Rightarrow> h | None \<Rightarrow> [])"

section \<open>The positions table and its clean-up statement\<close>

text \<open>
  Of a row of \<^verbatim>\<open>positions\<close> the clean-up statement reads the columns \<^verbatim>\<open>id\<close>,
  \<^verbatim>\<open>device_id\<close> and \<^verbatim>\<open>timestamp\<close>. \<^verbatim>\<open>id\<close> is the primary key: no two rows share it.
\<close>

record row =
  row_id :: nat
  row_device :: string
  row_timestamp :: int

definition device_rows :: "string \<Rightarrow> row list \<Rightarrow> row list" where
  "device_rows d tbl = filter (\<lambda>r. row_device r = d) tbl"

text \<open>\<^verbatim>\<open>LIMIT n\<close>: at most \<open>n\<close> rows; SQLite reads a negative \<open>n\<close> as no limit.\<close>

definition limit_count :: "int \<Rightarrow> nat \<Rightarrow> nat" where
  "limit_count n len = (if n < 0 then len else min (nat n) len)"

definition newest_first :: "row list \<Rightarrow> bool" where
  "newest_first rs = sorted_wrt (\<lambda>a b. row_timestamp b \<le> row_timestamp a) rs"

text \<open>
  The subquery
  \<^verbatim>\<open>SELECT id FROM positions WHERE device_id = ? ORDER BY timestamp DESC LIMIT ?\<close>.
  The statement names no second sort key, and SQL leaves the order of rows with equal
  keys to the engine. \<open>select_result n d tbl sel\<close> says that \<open>sel\<close> is an answer the
  statement allows: the first rows, up to the limit, of the device's rows in some order of
  descending timestamp. That is, \<open>sel\<close> has the right length, descends, and no row left
  out is newer than a row taken.
\<close>

definition select_result :: "int \<Rightarrow> string \<Rightarrow> row list \<Rightarrow> row list \<Rightarrow> bool" where
  "select_result n d tbl sel \<longleftrightarrow>
     distinct sel \<and> set sel \<subseteq> set (device_rows d tbl) \<and>
     length sel = limit_count n (length (device_rows d tbl)) \<and>
     newest_first sel \<and>
     (\<forall>k \<in> set sel. \<forall>r \<in> set (device_rows d tbl). r \<notin> set sel \<longrightarrow> row_timestamp r \<le> row_timestamp k)"

text \<open>
  \<^verbatim>\<open>DELETE FROM positions WHERE device_id = ? AND id NOT IN (...)\<close>, given the ids the
  subquery returned.
\<close>

definition cleanup :: "string \<Rightarrow> nat list \<Rightarrow> row list \<Rightarrow> row list" where
  "cleanup d ids tbl = filter (\<lambda>r. \<not> (row_device r = d \<and> row_id r \<notin> set ids)) tbl"

text \<open>
  Pruning as the specification words it, for comparison: the device's rows by descending
  timestamp, rows of equal timestamp by descending row id (so that the oldest row id goes
  first), and all beyond the first \<open>n\<close> deleted.
\<close>

definition spec_order :: "row list \<Rightarrow> row list" where
  "spec_order rs = rev (sort_key row_timestamp (sort_key row_id rs))"

definition spec_prune :: "int \<Rightarrow> string \<Rightarrow> row list \<Rightarrow> row list" where
  "spec_prune n d tbl = cleanup d (map row_id (take (nat n) (spec_order (device_rows d tbl)))) tbl"

section \<open>A sample execution\<close>

text \<open>
  Inputs for the concrete checks below: a configuration that keeps two history points, a
  report with the three required fields, the position it is stored as, an execution with
  two devices and two sockets, and a positions table with a tie on the timestamp.
\<close>

definition test_config :: config where
  "test_config = \<lparr>deviceToken = ''test_token_123'', historyPoints = 2, onlineWindowS = 60\<rparr>"

definition report :: "string \<Rightarrow> rat \<Rightarrow> rat \<Rightarrow> jsobject" where
  "report d la lo =
     empty_object(''device_id'' := Str d, ''lat'' := Num (Fin la), ''lng'' := Num (Fin lo))"

definition reported :: "string \<Rightarrow> rat \<Rightarrow> rat \<Rightarrow> int \<Rightarrow> position" where
  "reported d la lo now =
     \<lparr>device_id = Str d, lat = Fin la, lng = Fin lo, speed = Fin 0, heading = Fin 0,
      sats = Fin 0, timestamp = Num (Fin (of_int now))\<rparr>"

definition test_events :: "event list" where
  "test_events =
     [WsConnection 1, MqttMessage (report ''A'' 1 1) 10, WsConnection 2,
      MqttMessage (report ''B'' 2 2) 20, MqttMessage (report ''A'' 3 3) 30, WsClose 2,
      MqttMessage (report ''A'' 4 4) 40]"

definition test_table :: "row list" where
  "test_table =
     [\<lparr>row_id = 1, row_device = ''D1'', row_timestamp = 5\<rparr>,
      \<lparr>row_id = 2, row_device = ''D1'', row_timestamp = 5\<rparr>,
      \<lparr>row_id = 3, row_device = ''D1'', row_timestamp = 7\<rparr>,
      \<lparr>row_id = 4, row_device = ''D2'', row_timestamp = 1\<rparr>]"

section \<open>Basic facts\<close>

subsection \<open>Maps\<close>

lemma map_of_map_set: "map_of (map_set k v m) = (map_of m)(k \<mapsto> v)"
  by (induction m) (auto simp: fun_eq_iff)

lemma map_get_map_set: "map_get k' (map_set k v m) = (if k' = k then Some v else map_get k' m)"
  by (simp add: map_get_def map_of_map_set)

lemma map_has_map_set: "map_has k' (map_set k v m) \<longleftrightarrow> k' = k \<or> map_has k' m"
  by (simp add: map_has_def map_of_map_set)

lemma keys_map_set:
  "map fst (map_set k v m) = (if k \<in> set (map fst m) then map fst m else map fst m @ [k])"
  by (induction m) force+

lemma map_set_map_set: "map_set k v (map_set k v' m) = map_set k v m"
  by (induction m) auto

lemma map_has_keys: "map_has k m \<longleftrightarrow> k \<in> set (map fst m)"
  by (simp add: map_has_def map_of_eq_None_iff)

lemma map_set_not_Nil: "map_set k v m \<noteq> []"
  by (induction k v m rule: map_set.induct) simp_all

lemma count_list_distinct:
  "distinct xs \<Longrightarrow> count_list xs x = (if x \<in> set xs then 1 else 0)"
  by (induction xs) auto

subsection \<open>The broadcast loop and \<^verbatim>\<open>processLocationUpdate\<close> in closed form\<close>

text \<open>
  The \<^verbatim>\<open>forEach\<close> over the clients appends the message once for each occurrence of an
  open socket in the list, and touches nothing but the sockets' messages.
\<close>

lemma ws_fold_closed:
  "fold (\<lambda>w s'. if readyState s' w = OPEN then ws_send w m s' else s') ws s =
     s\<lparr>sent := (\<lambda>w. if readyState s w = OPEN then sent s w @ replicate (count_list ws w) m
                     else sent s w)\<rparr>"
proof (induction ws arbitrary: s)
  case Nil
  show ?case by (rule state.equality) (simp_all add: fun_eq_iff)
next
  case (Cons a ws)
  show ?case
  proof (cases "readyState s a = OPEN")
    case True
    then show ?thesis
      by (simp add: Cons ws_send_def fun_eq_iff replicate_app_Cons_same)
  next
    case False
    then show ?thesis
      by (auto simp add: Cons fun_eq_iff)
  qed
qed

lemma broadcastUpdate_closed:
  "broadcastUpdate p s =
     s\<lparr>sent := (\<lambda>w. if readyState s w = OPEN
                     then sent s w @ replicate (count_list (wsClients s) w) (Update p)
                     else sent s w)\<rparr>"
  unfolding broadcastUpdate_def by (rule ws_fold_closed)

lemma processLocationUpdate_rejected:
  "build_position now data = None \<Longrightarrow> processLocationUpdate cfg now data s = s"
  by (simp add: processLocationUpdate_def)

lemma processLocationUpdate_accepted:
  assumes "build_position now data = Some p"
  shows "processLocationUpdate cfg now data s =
     s\<lparr>devicePositions := map_set (device_id p) p (devicePositions s),
       deviceHistory := map_set (device_id p)
          (prune_history cfg (history_of (device_id p) s @ [p])) (deviceHistory s),
       totalPositions := totalPositions s + 1,
       sent := (\<lambda>w. if readyState s w = OPEN
                     then sent s w @ replicate (count_list (wsClients s) w) (Update p)
                     else sent s w),
       db_runs := db_runs s @ [UpdateDevice p, InsertPosition p, Cleanup (device_id p) (historyPoints cfg)]\<rparr>"
proof (cases "map_has (device_id p) (deviceHistory s)")
  case True
  with assms show ?thesis
    by (simp add: processLocationUpdate_def Let_def broadcastUpdate_closed updateDatabase_def
        map_has_map_set history_of_def cong: if_cong)
next
  case False
  then have "map_get (device_id p) (deviceHistory s) = None"
    by (simp add: map_has_def map_get_def)
  with assms False show ?thesis
    by (simp add: processLocationUpdate_def Let_def broadcastUpdate_closed updateDatabase_def
        map_has_map_set map_get_map_set map_set_map_set history_of_def cong: if_cong)
qed

lemma build_position_None_iff:
  "build_position now data = None \<longleftrightarrow>
     \<not> truthy (data ''device_id'') \<or> \<not> truthy (data ''lat'') \<or> \<not> truthy (data ''lng'')"
  by (simp add: build_position_def)

lemma build_position_report:
  "d \<noteq> [] \<Longrightarrow> la \<noteq> 0 \<Longrightarrow> lo \<noteq> 0 \<Longrightarrow> build_position now (report d la lo) = Some (reported d la lo now)"
  by (simp add: build_position_def report_def reported_def empty_object_def or_zero_def)

section \<open>The normalizer\<close>







section \<open>The track route\<close>

text \<open>
  C10. On \<^verbatim>\<open>POST /api/track\<close> the required fields are checked before the token: a body
  from which \<^verbatim>\<open>device_id\<close>, \<^verbatim>\<open>lat\<close> or \<^verbatim>\<open>lng\<close> is missing is answered 400 with the
  missing-fields error whatever the token is; so a 401 is only ever the answer to a body
  that has all three; and neither rejection changes the state.
\<close>

theorem required_fields_before_token:
  "(body req ''device_id'' = Undefined \<or> body req ''lat'' = Undefined
      \<or> body req ''lng'' = Undefined \<longrightarrow>
      post_track cfg now req s =
        (\<lparr>status = 400, json = Failure ''Missing required fields: device_id, lat, lng''\<rparr>, s))
   \<and> (status (fst (post_track cfg now req s)) = 401 \<longrightarrow>
        body req ''device_id'' \<noteq> Undefined \<and> body req ''lat'' \<noteq> Undefined
        \<and> body req ''lng'' \<noteq> Undefined)
   \<and> (status (fst (post_track cfg now req s)) = 400
        \<or> status (fst (post_track cfg now req s)) = 401 \<longrightarrow>
        snd (post_track cfg now req s) = s)"
  by (auto simp add: post_track_def Let_def)

theorem required_fields_before_token_witness:
  "post_track \<lparr>deviceToken = ''secret'', historyPoints = 500, onlineWindowS = 60\<rparr> 0
      \<lparr>body = empty_object(''lat'' := Num (Fin 40)),
        header_token = Undefined, query_token = Undefined\<rparr> init_state
     = (\<lparr>status = 400, json = Failure ''Missing required fields: device_id, lat, lng''\<rparr>,
        init_state)
   \<and> post_track \<lparr>deviceToken = ''secret'', historyPoints = 500, onlineWindowS = 60\<rparr> 0
      \<lparr>body = empty_object(''device_id'' := Str ''D1'', ''lat'' := Num (Fin 40),
                ''lng'' := Num (Fin (- 74))),
        header_token = Str ''wrong'', query_token = Undefined\<rparr> init_state
     = (\<lparr>status = 401, json = Failure ''Invalid device token''\<rparr>, init_state)"
proof -
  let ?cfg = "\<lparr>deviceToken = ''secret'', historyPoints = 500, onlineWindowS = 60\<rparr>"
  let ?a = "\<lparr>body = empty_object(''lat'' := Num (Fin 40)),
        header_token = Undefined, query_token = Undefined\<rparr>"
  let ?b = "\<lparr>body = empty_object(''device_id'' := Str ''D1'', ''lat'' := Num (Fin 40),
                ''lng'' := Num (Fin (- 74))),
        header_token = Str ''wrong'', query_token = Undefined\<rparr>"
  have absent: "body ?a ''device_id'' = Undefined"
    by (simp add: empty_object_def)
  have a: "post_track ?cfg 0 ?a init_state =
        (\<lparr>status = 400, json = Failure ''Missing required fields: device_id, lat, lng''\<rparr>,
         init_state)"
    using required_fields_before_token [of ?a ?cfg 0 init_state] absent by blast
  have st: "status (fst (post_track ?cfg 0 ?b init_state)) = 401"
    by (simp add: post_track_def js_or_def empty_object_def)
  have js: "json (fst (post_track ?cfg 0 ?b init_state)) = Failure ''Invalid device token''"
    by (simp add: post_track_def js_or_def empty_object_def)
  have "snd (post_track ?cfg 0 ?b init_state) = init_state"
    using required_fields_before_token [of ?b ?cfg 0 init_state] st by blast
  with st js have b: "post_track ?cfg 0 ?b init_state =
        (\<lparr>status = 401, json = Failure ''Invalid device token''\<rparr>, init_state)"
    by (cases "post_track ?cfg 0 ?b init_state") (auto intro: response.equality)
  from a b show ?thesis by (rule conjI)
qed

text \<open>
  A request that passes the field check with a token that is not the configured one is
  answered 401, and the state (latest positions, histories, sockets' messages, database
  statements) is the one before.
\<close>

lemma invalid_token_rejected:
  assumes "truthy (body req ''device_id'')" "truthy (body req ''lat'')" "truthy (body req ''lng'')"
    and "js_or (header_token req) (query_token req) \<noteq> Str (deviceToken cfg)"
  shows "post_track cfg now req s = (\<lparr>status = 401, json = Failure ''Invalid device token''\<rparr>, s)"
  using assms by (simp add: post_track_def Let_def)

text \<open>
  C5. Every \<^verbatim>\<open>POST /api/track\<close> whose body contains \<^verbatim>\<open>device_id\<close>, \<^verbatim>\<open>lat\<close> and \<^verbatim>\<open>lng\<close>
  and whose token is absent or wrong should be answered 401 \<^verbatim>\<open>Invalid device token\<close>. The
  handler tests the fields with \<^verbatim>\<open>!lat\<close>, which is also true of the number 0: a body with
  \<^verbatim>\<open>lat: 0\<close> and no token is answered 400 \<^verbatim>\<open>Missing required fields\<close>, though no field is
  missing.
\<close>

theorem zero_latitude_answered_400:
  "post_track cfg now
      \<lparr>body = empty_object(''device_id'' := Str ''D1'', ''lat'' := Num (Fin 0),
                ''lng'' := Num (Fin (- 74006 / 1000))),
        header_token = Undefined, query_token = Undefined\<rparr> s
   = (\<lparr>status = 400, json = Failure ''Missing required fields: device_id, lat, lng''\<rparr>, s)"
  by (simp add: post_track_def empty_object_def)

theorem zero_latitude_answered_400_witness:
  "status (fst (post_track test_config 1000
      \<lparr>body = empty_object(''device_id'' := Str ''D1'', ''lat'' := Num (Fin 0),
                ''lng'' := Num (Fin (- 74006 / 1000))),
        header_token = Undefined, query_token = Undefined\<rparr> init_state)) = 400"
  using zero_latitude_answered_400 [of test_config 1000 init_state] by simp

section \<open>Executions\<close>

lemma run_Nil: "run cfg [] s = s"
  by (simp add: run_def)

lemma run_snoc: "run cfg (evs @ [e]) s = step cfg e (run cfg evs s)"
  by (simp add: run_def)

lemma accepted_records_Nil: "accepted_records cfg [] = []"
  by (simp add: accepted_records_def)

lemma accepted_records_snoc:
  "accepted_records cfg (evs @ [e]) = accepted_records cfg evs @ accepted_of cfg e"
  by (simp add: accepted_records_def)

lemma post_track_state:
  "snd (post_track cfg now req s) =
     (if token_ok cfg req then processLocationUpdate cfg now (body req) s else s)"
proof (cases "build_position now (body req)")
  case None
  then show ?thesis
    by (auto simp add: post_track_def Let_def processLocationUpdate_rejected build_position_None_iff)
next
  case (Some p)
  then have "truthy (body req ''device_id'') \<and> truthy (body req ''lat'') \<and> truthy (body req ''lng'')"
    using build_position_None_iff [of now "body req"] by auto
  then show ?thesis
    by (simp add: post_track_def Let_def token_ok_def)
qed

lemma accepted_of_cases:
  "accepted_of cfg e = [] \<or> (\<exists>p. accepted_of cfg e = [p])"
  by (cases e) (auto split: option.splits)

lemma step_not_accepting:
  assumes "accepted_of cfg e = []"
  shows "devicePositions (step cfg e s) = devicePositions s"
    and "deviceHistory (step cfg e s) = deviceHistory s"
    and "totalPositions (step cfg e s) = totalPositions s"
    and "totalDevices (step cfg e s) = totalDevices s"
  using assms
  by (cases e;
      auto simp add: post_track_state processLocationUpdate_rejected on_connection_def
        on_close_def ws_send_def Let_def split: option.splits if_splits)+

lemma step_accepting:
  assumes "accepted_of cfg e = [p]"
  shows "devicePositions (step cfg e s) = map_set (device_id p) p (devicePositions s)"
    and "deviceHistory (step cfg e s) =
           map_set (device_id p) (prune_history cfg (history_of (device_id p) s @ [p]))
             (deviceHistory s)"
    and "totalPositions (step cfg e s) = totalPositions s + 1"
    and "totalDevices (step cfg e s) = totalDevices s"
  using assms
  by (cases e;
      auto simp add: post_track_state processLocationUpdate_accepted
        split: option.splits if_splits)+

lemma records_of_snoc:
  "records_of d (recs @ [p]) = (if device_id p = d then records_of d recs @ [p] else records_of d recs)"
  by (simp add: records_of_def)

text \<open>What a step does to the latest positions, the registered sockets and their states.\<close>

lemma devicePositions_step:
  "devicePositions (step cfg e s) =
     (case accepted_of cfg e of [] \<Rightarrow> devicePositions s
      | p # ps \<Rightarrow> map_set (device_id p) p (devicePositions s))"
  using accepted_of_cases [of cfg e] step_not_accepting(1) [of cfg e s] step_accepting(1) [of cfg e _ s]
  by auto

lemma wsClients_step:
  "wsClients (step cfg e s) =
     (case e of WsConnection w \<Rightarrow> set_add w (wsClients s)
      | WsClose w \<Rightarrow> set_delete w (wsClients s)
      | WsError w \<Rightarrow> set_delete w (wsClients s)
      | _ \<Rightarrow> wsClients s)"
proof (cases e)
  case (HttpTrack req now)
  then show ?thesis
    by (cases "build_position now (body req)")
       (simp_all add: post_track_state processLocationUpdate_rejected processLocationUpdate_accepted)
next
  case (MqttMessage data now)
  then show ?thesis
    by (cases "build_position now data")
       (simp_all add: processLocationUpdate_rejected processLocationUpdate_accepted)
next
  case (WsConnection w)
  then show ?thesis by (simp add: on_connection_def Let_def ws_send_def)
next
  case (WsClose w)
  then show ?thesis by (simp add: on_close_def Let_def)
next
  case (WsError w)
  then show ?thesis by (simp add: on_close_def Let_def)
next
  case (SocketState w r)
  then show ?thesis by simp
qed

lemma wsClients_distinct: "distinct (wsClients (run cfg evs init_state))"
proof (induction evs rule: rev_induct)
  case Nil
  show ?case by (simp add: run_Nil init_state_def)
next
  case (snoc e evs)
  then show ?case
    by (simp add: run_snoc wsClients_step set_add_def set_delete_def split: event.splits)
qed

lemma readyState_step:
  "readyState (step cfg e s) =
     (case e of WsConnection w \<Rightarrow> (readyState s)(w := OPEN)
      | WsClose w \<Rightarrow> (readyState s)(w := CLOSED)
      | SocketState w r \<Rightarrow> (readyState s)(w := r)
      | _ \<Rightarrow> readyState s)"
proof (cases e)
  case (HttpTrack req now)
  then show ?thesis
    by (cases "build_position now (body req)")
       (simp_all add: post_track_state processLocationUpdate_rejected processLocationUpdate_accepted)
next
  case (MqttMessage data now)
  then show ?thesis
    by (cases "build_position now data")
       (simp_all add: processLocationUpdate_rejected processLocationUpdate_accepted)
next
  case (WsConnection w)
  then show ?thesis by (simp add: on_connection_def Let_def ws_send_def)
next
  case (WsClose w)
  then show ?thesis by (simp add: on_close_def Let_def)
next
  case (WsError w)
  then show ?thesis by (simp add: on_close_def Let_def)
next
  case (SocketState w r)
  then show ?thesis by simp
qed

lemma sent_unregistered:
  "w \<notin> set (wsClients s) \<Longrightarrow> e \<noteq> WsConnection w \<Longrightarrow> sent (step cfg e s) w = sent s w"
proof (cases e)
  case (HttpTrack req now)
  assume "w \<notin> set (wsClients s)"
  with HttpTrack show ?thesis
    by (cases "build_position now (body req)")
       (simp_all add: post_track_state processLocationUpdate_rejected processLocationUpdate_accepted
          count_list_0_iff)
next
  case (MqttMessage data now)
  assume "w \<notin> set (wsClients s)"
  with MqttMessage show ?thesis
    by (cases "build_position now data")
       (simp_all add: processLocationUpdate_rejected processLocationUpdate_accepted count_list_0_iff)
next
  case (WsConnection w')
  assume "e \<noteq> WsConnection w"
  with WsConnection show ?thesis by (simp add: on_connection_def Let_def ws_send_def)
next
  case (WsClose w')
  then show ?thesis by (simp add: on_close_def Let_def)
next
  case (WsError w')
  then show ?thesis by (simp add: on_close_def Let_def)
next
  case (SocketState w' r)
  then show ?thesis by simp
qed

lemma never_connected:
  "WsConnection w \<notin> set evs \<Longrightarrow>
     w \<notin> set (wsClients (run cfg evs init_state)) \<and> sent (run cfg evs init_state) w = []"
proof (induction evs rule: rev_induct)
  case Nil
  show ?case by (simp add: run_Nil init_state_def)
next
  case (snoc e evs)
  then have ih: "w \<notin> set (wsClients (run cfg evs init_state))"
      "sent (run cfg evs init_state) w = []" and e: "e \<noteq> WsConnection w"
    by auto
  from ih(1) e have "w \<notin> set (wsClients (step cfg e (run cfg evs init_state)))"
    by (auto simp add: wsClients_step set_add_def set_delete_def split: event.splits)
  moreover from sent_unregistered [OF ih(1) e] ih(2)
  have "sent (step cfg e (run cfg evs init_state)) w = []" by simp
  ultimately show ?case by (simp add: run_snoc)
qed

text \<open>The sample execution, evaluated.\<close>

lemma test_accepted:
  "accepted_records test_config test_events =
     [reported ''A'' 1 1 10, reported ''B'' 2 2 20, reported ''A'' 3 3 30, reported ''A'' 4 4 40]"
  by (simp add: accepted_records_def test_events_def build_position_report)

lemma test_positions:
  "devicePositions (run test_config test_events init_state) =
     [(Str ''A'', reported ''A'' 4 4 40), (Str ''B'', reported ''B'' 2 2 20)]"
  by (simp add: run_def test_events_def devicePositions_step build_position_report
      init_state_def reported_def del: step.simps)

lemma test_clients: "wsClients (run test_config test_events init_state) = [1]"
  by (simp add: run_def test_events_def wsClients_step init_state_def set_add_def set_delete_def
      del: step.simps)

lemma test_ready: "readyState (run test_config test_events init_state) 1 = OPEN"
  by (simp add: run_def test_events_def readyState_step init_state_def del: step.simps)

subsection \<open>Counters\<close>

lemma counters_of_run:
  "totalDevices (run cfg evs init_state) = 0 \<and>
   totalPositions (run cfg evs init_state) = length (accepted_records cfg evs)"
proof (induction evs rule: rev_induct)
  case Nil
  show ?case by (simp add: run_Nil accepted_records_Nil init_state_def)
next
  case (snoc e evs)
  from accepted_of_cases [of cfg e] show ?case
  proof
    assume "accepted_of cfg e = []"
    with snoc show ?thesis
      by (simp add: run_snoc accepted_records_snoc step_not_accepting)
  next
    assume "\<exists>p. accepted_of cfg e = [p]"
    then obtain p where "accepted_of cfg e = [p]" ..
    with snoc show ?thesis
      by (simp add: run_snoc accepted_records_snoc step_accepting)
  qed
qed

text \<open>
  C7. \<^verbatim>\<open>totalDevices\<close> should count the distinct devices seen. The code tests
  \<^verbatim>\<open>!devicePositions.has(device_id)\<close> after \<^verbatim>\<open>devicePositions.set(device_id, position)\<close>,
  so the test is never true and the counter stays 0 (\<open>counters_of_run\<close>): after the first
  accepted record of the first device, \<^verbatim>\<open>GET /api/stats\<close> reports 0 devices and 1 position.
\<close>

theorem totalDevices_not_counted:
  "get_stats (snd (post_track \<lparr>deviceToken = ''secret'', historyPoints = 500, onlineWindowS = 60\<rparr> 1000
      \<lparr>body = empty_object(''device_id'' := Str ''D1'', ''lat'' := Num (Fin (407128 / 10000)),
                ''lng'' := Num (Fin (- 74006 / 1000))),
        header_token = Str ''secret'', query_token = Undefined\<rparr> init_state)) = (0, 1)"
  by (simp add: get_stats_def post_track_def js_or_def empty_object_def Let_def
      processLocationUpdate_def build_position_def init_state_def map_has_def
      broadcastUpdate_def updateDatabase_def)

theorem totalDevices_not_counted_witness:
  "totalDevices (snd (post_track \<lparr>deviceToken = ''secret'', historyPoints = 500, onlineWindowS = 60\<rparr> 1000
      \<lparr>body = empty_object(''device_id'' := Str ''D1'', ''lat'' := Num (Fin (407128 / 10000)),
                ''lng'' := Num (Fin (- 74006 / 1000))),
        header_token = Str ''secret'', query_token = Undefined\<rparr> init_state)) = 0"
  using totalDevices_not_counted by (simp add: get_stats_def)

subsection \<open>Histories\<close>

text \<open>
  Pruning keeps the last \<^verbatim>\<open>historyPoints\<close> elements, and none when the limit is negative.
\<close>

lemma prune_history_drop:
  "prune_history cfg xs = drop (length xs - nat (historyPoints cfg)) xs"
  by (auto simp add: prune_history_def splice0_def min_def max_def nat_diff_distrib' intro: arg_cong2 [where f = drop])

lemma keep_last_snoc:
  "drop (length (drop (length xs - k) xs @ [p]) - k) (drop (length xs - k) xs @ [p]) =
   drop (length (xs @ [p]) - k) (xs @ [p])"
  by (cases "length xs \<le> k") (auto simp add: Suc_diff_le)

lemma latest_of_run:
  "map_get d (devicePositions (run cfg evs init_state)) =
     (if records_of d (accepted_records cfg evs) = [] then None
      else Some (last (records_of d (accepted_records cfg evs))))"
proof (induction evs rule: rev_induct)
  case Nil
  show ?case
    by (simp add: run_Nil accepted_records_Nil init_state_def map_get_def records_of_def)
next
  case (snoc e evs)
  from accepted_of_cases [of cfg e] show ?case
  proof
    assume "accepted_of cfg e = []"
    with snoc show ?thesis
      by (simp add: run_snoc accepted_records_snoc step_not_accepting)
  next
    assume "\<exists>p. accepted_of cfg e = [p]"
    then obtain p where "accepted_of cfg e = [p]" ..
    with snoc show ?thesis
      by (simp add: run_snoc accepted_records_snoc step_accepting map_get_map_set records_of_snoc)
  qed
qed

lemma history_map_of_run:
  "map_get d (deviceHistory (run cfg evs init_state)) =
     (if records_of d (accepted_records cfg evs) = [] then None
      else Some (drop (length (records_of d (accepted_records cfg evs)) - nat (historyPoints cfg))
                   (records_of d (accepted_records cfg evs))))"
proof (induction evs arbitrary: d rule: rev_induct)
  case Nil
  show ?case
    by (simp add: run_Nil accepted_records_Nil init_state_def map_get_def records_of_def)
next
  case (snoc e evs)
  let ?s = "run cfg evs init_state"
  let ?recs = "accepted_records cfg evs"
  have hist: "history_of d' ?s = drop (length (records_of d' ?recs) - nat (historyPoints cfg))
                   (records_of d' ?recs)" for d'
    by (simp add: history_of_def snoc)
  from accepted_of_cases [of cfg e] show ?case
  proof
    assume "accepted_of cfg e = []"
    with snoc show ?thesis
      by (simp add: run_snoc accepted_records_snoc step_not_accepting)
  next
    assume "\<exists>p. accepted_of cfg e = [p]"
    then obtain p where p: "accepted_of cfg e = [p]" ..
    show ?thesis
    proof (cases "device_id p = d")
      case True
      have "prune_history cfg (history_of d ?s @ [p]) =
              drop (length (records_of d ?recs @ [p]) - nat (historyPoints cfg))
                (records_of d ?recs @ [p])"
        unfolding prune_history_drop hist by (rule keep_last_snoc)
      with p True show ?thesis
        by (simp add: run_snoc accepted_records_snoc step_accepting map_get_map_set
            records_of_snoc)
    next
      case False
      with p snoc show ?thesis
        by (simp add: run_snoc accepted_records_snoc step_accepting map_get_map_set
            records_of_snoc)
    qed
  qed
qed

lemma history_of_run:
  "history_of d (run cfg evs init_state) =
     drop (length (records_of d (accepted_records cfg evs)) - nat (historyPoints cfg))
       (records_of d (accepted_records cfg evs))"
  by (simp add: history_of_def history_map_of_run)

text \<open>
  C1. With a limit of \<open>H\<close> history points, after any execution in which \<open>N\<close> records of
  a device were accepted, the history of the device has length \<open>min N H\<close> and is the last
  \<open>min N H\<close> of those records, in arrival order; so it never has more than \<open>H\<close> elements.
\<close>

theorem history_bounded_most_recent:
  assumes "0 < historyPoints cfg"
  shows "(let recs = records_of d (accepted_records cfg evs);
              h = history_of d (run cfg evs init_state)
          in length h = min (length recs) (nat (historyPoints cfg))
             \<and> h = drop (length recs - min (length recs) (nat (historyPoints cfg))) recs
             \<and> int (length h) \<le> historyPoints cfg)"
  using assms by (auto simp add: Let_def history_of_run min_def)

theorem history_bounded_most_recent_witness:
  "0 < historyPoints test_config \<and>
   records_of (Str ''A'') (accepted_records test_config test_events) =
     [reported ''A'' 1 1 10, reported ''A'' 3 3 30, reported ''A'' 4 4 40] \<and>
   history_of (Str ''A'') (run test_config test_events init_state) =
     [reported ''A'' 3 3 30, reported ''A'' 4 4 40]"
proof -
  have pos: "0 < historyPoints test_config" by (simp add: test_config_def)
  have recs: "records_of (Str ''A'') (accepted_records test_config test_events) =
     [reported ''A'' 1 1 10, reported ''A'' 3 3 30, reported ''A'' 4 4 40]"
    by (simp add: test_accepted records_of_def reported_def)
  have "nat (historyPoints test_config) = 2" by (simp add: test_config_def)
  with history_bounded_most_recent [OF pos, where d = "Str ''A''" and evs = test_events] recs
  have "history_of (Str ''A'') (run test_config test_events init_state) =
     [reported ''A'' 3 3 30, reported ''A'' 4 4 40]"
    by (simp add: Let_def)
  with pos recs show ?thesis by simp
qed

subsection \<open>Latest positions\<close>

lemma keys_of_run:
  "distinct (map fst (devicePositions (run cfg evs init_state))) \<and>
   set (map fst (devicePositions (run cfg evs init_state))) = device_id ` set (accepted_records cfg evs)"
proof (induction evs rule: rev_induct)
  case Nil
  show ?case
    by (simp add: run_Nil accepted_records_Nil init_state_def)
next
  case (snoc e evs)
  from accepted_of_cases [of cfg e] show ?case
  proof
    assume "accepted_of cfg e = []"
    with snoc show ?thesis
      by (simp add: run_snoc accepted_records_snoc step_not_accepting)
  next
    assume "\<exists>p. accepted_of cfg e = [p]"
    then obtain p where "accepted_of cfg e = [p]" ..
    with snoc show ?thesis
      by (auto simp add: run_snoc accepted_records_snoc step_accepting keys_map_set)
  qed
qed

lemma entry_of_run:
  assumes "(k, p) \<in> set (devicePositions (run cfg evs init_state))"
  shows "records_of k (accepted_records cfg evs) \<noteq> []"
    and "p = last (records_of k (accepted_records cfg evs))"
    and "device_id p = k"
proof -
  let ?recs = "records_of k (accepted_records cfg evs)"
  from assms keys_of_run [of cfg evs]
  have "map_of (devicePositions (run cfg evs init_state)) k = Some p"
    by (simp add: map_of_eq_Some_iff)
  then have *: "(if ?recs = [] then None else Some (last ?recs)) = Some p"
    using latest_of_run [of k cfg evs] by (simp add: map_get_def)
  then show ne: "?recs \<noteq> []" by (auto split: if_splits)
  with * show eq: "p = last ?recs" by simp
  from ne have "last ?recs \<in> set ?recs" by (rule last_in_set)
  with eq show "device_id p = k" by (simp add: records_of_def)
qed

lemma snapshot_keys:
  "map device_id (map_values (devicePositions (run cfg evs init_state))) =
   map fst (devicePositions (run cfg evs init_state))"
  unfolding map_values_def
  by (rule nth_equalityI) (auto simp add: entry_of_run(3) [of _ _ cfg evs] intro!: entry_of_run(3) [of _ _ cfg evs])

text \<open>
  C2. After any execution the snapshot of \<^verbatim>\<open>GET /api/positions\<close> has one entry for each
  device with an accepted record and no other: its count is the number of distinct device
  ids accepted, no device id occurs twice, and each entry is the last record accepted for
  its device, whatever other devices sent in between.
\<close>

theorem snapshot_complete_latest:
  "(let recs = accepted_records cfg evs;
        (count, devices) = get_positions (run cfg evs init_state)
    in count = card (device_id ` set recs) \<and> length devices = count
       \<and> distinct (map device_id devices)
       \<and> device_id ` set devices = device_id ` set recs
       \<and> (\<forall>p \<in> set devices. p = last (records_of (device_id p) recs)))"
proof -
  let ?m = "devicePositions (run cfg evs init_state)"
  let ?recs = "accepted_records cfg evs"
  have keys: "map device_id (map_values ?m) = map fst ?m"
    by (rule snapshot_keys)
  have d: "distinct (map fst ?m)" and s: "set (map fst ?m) = device_id ` set ?recs"
    using keys_of_run [of cfg evs] by simp_all
  have len: "length (map_values ?m) = card (device_id ` set ?recs)"
  proof -
    have "length (map_values ?m) = length (map fst ?m)" by (simp add: map_values_def)
    also have "\<dots> = card (set (map fst ?m))" using d by (rule distinct_card [symmetric])
    finally show ?thesis using s by simp
  qed
  have st: "device_id ` set (map_values ?m) = device_id ` set ?recs"
  proof -
    have "device_id ` set (map_values ?m) = set (map device_id (map_values ?m))" by simp
    with keys s show ?thesis by simp
  qed
  have each: "p = last (records_of (device_id p) ?recs)" if "p \<in> set (map_values ?m)" for p
  proof -
    from that obtain k where kp: "(k, p) \<in> set ?m"
      by (auto simp add: map_values_def)
    from entry_of_run(2) [OF kp] entry_of_run(3) [OF kp] show ?thesis by simp
  qed
  from len st each d keys show ?thesis
    by (simp add: get_positions_def Let_def)
qed

theorem snapshot_complete_latest_witness:
  "get_positions (run test_config test_events init_state) =
     (2, [reported ''A'' 4 4 40, reported ''B'' 2 2 20]) \<and>
   reported ''A'' 4 4 40 =
     last (records_of (Str ''A'') (accepted_records test_config test_events))"
proof -
  have gp: "get_positions (run test_config test_events init_state) =
     (2, [reported ''A'' 4 4 40, reported ''B'' 2 2 20])"
    by (simp add: get_positions_def map_values_def test_positions)
  from snapshot_complete_latest [where cfg = test_config and evs = test_events]
  have "\<forall>p \<in> set [reported ''A'' 4 4 40, reported ''B'' 2 2 20].
          p = last (records_of (device_id p) (accepted_records test_config test_events))"
    unfolding gp Let_def by simp
  then have "reported ''A'' 4 4 40 =
     last (records_of (device_id (reported ''A'' 4 4 40)) (accepted_records test_config test_events))"
    by simp
  then have "reported ''A'' 4 4 40 =
     last (records_of (Str ''A'') (accepted_records test_config test_events))"
    by (simp add: reported_def)
  with gp show ?thesis by simp
qed



subsection \<open>Subscribers\<close>

lemma on_connection_sent:
  "sent (step cfg (WsConnection w) s) w' =
     (if w' = w \<and> devicePositions s \<noteq> [] then sent s w @ [Snapshot (map_values (devicePositions s))]
      else sent s w')"
  by (simp add: on_connection_def Let_def ws_send_def map_values_def)

lemma removed_receives_nothing:
  assumes "build_position now data = Some position" and "e = WsClose w \<or> e = WsError w"
  shows "sent (processLocationUpdate cfg now data (step cfg e s)) w = sent s w"
proof -
  from assms(2) have "w \<notin> set (wsClients (step cfg e s))" and "sent (step cfg e s) w = sent s w"
    by (auto simp add: on_close_def Let_def set_delete_def)
  then show ?thesis
    by (simp add: processLocationUpdate_accepted [OF assms(1)] count_list_0_iff del: step.simps)
qed

text \<open>
  C4. When a record is accepted, after any execution, every socket that is registered and
  open gets exactly one update message with that record, and every other socket gets
  nothing; in particular a socket whose \<^verbatim>\<open>close\<close> or \<^verbatim>\<open>error\<close> handler ran before gets
  nothing; and a socket that was not registered and connects afterwards gets the snapshot
  of the positions at that moment and no update for the record.
\<close>

theorem broadcast_fan_out:
  assumes "build_position now data = Some position"
  shows "(let s = run cfg evs init_state;
              s' = processLocationUpdate cfg now data s
          in (\<forall>w. sent s' w =
                 (if w \<in> set (wsClients s) \<and> readyState s w = OPEN
                  then sent s w @ [Update position] else sent s w))
           \<and> (\<forall>w. sent (processLocationUpdate cfg now data (step cfg (WsClose w) s)) w = sent s w
                  \<and> sent (processLocationUpdate cfg now data (step cfg (WsError w) s)) w = sent s w)
           \<and> (\<forall>w. w \<notin> set (wsClients s) \<longrightarrow>
                 sent (step cfg (WsConnection w) s') w =
                   sent s w @ [Snapshot (map_values (devicePositions s'))]))"
proof -
  let ?s = "run cfg evs init_state"
  let ?s' = "processLocationUpdate cfg now data ?s"
  have d: "distinct (wsClients ?s)" by (rule wsClients_distinct)
  have 1: "sent ?s' w =
      (if w \<in> set (wsClients ?s) \<and> readyState ?s w = OPEN
       then sent ?s w @ [Update position] else sent ?s w)" for w
    by (simp add: processLocationUpdate_accepted [OF assms] count_list_distinct [OF d])
  have ne: "devicePositions ?s' \<noteq> []"
    by (simp add: processLocationUpdate_accepted [OF assms] map_set_not_Nil)
  have 2: "sent (step cfg (WsConnection w) ?s') w =
      sent ?s w @ [Snapshot (map_values (devicePositions ?s'))]" if "w \<notin> set (wsClients ?s)" for w
    using that ne 1 [of w] by (simp add: on_connection_sent del: step.simps)
  have 3: "sent (processLocationUpdate cfg now data (step cfg (WsClose w) ?s)) w = sent ?s w
         \<and> sent (processLocationUpdate cfg now data (step cfg (WsError w) ?s)) w = sent ?s w" for w
    using removed_receives_nothing [OF assms, of "WsClose w" w cfg ?s]
      removed_receives_nothing [OF assms, of "WsError w" w cfg ?s] by blast
  from 1 2 3 show ?thesis unfolding Let_def by blast
qed

theorem broadcast_fan_out_witness:
  "build_position 50 (report ''B'' 5 5) = Some (reported ''B'' 5 5 50) \<and>
   sent (processLocationUpdate test_config 50 (report ''B'' 5 5)
           (run test_config test_events init_state)) 1 =
     sent (run test_config test_events init_state) 1 @ [Update (reported ''B'' 5 5 50)] \<and>
   sent (processLocationUpdate test_config 50 (report ''B'' 5 5)
           (run test_config test_events init_state)) 2 =
     sent (run test_config test_events init_state) 2 \<and>
   sent (processLocationUpdate test_config 50 (report ''B'' 5 5)
           (step test_config (WsError 1) (run test_config test_events init_state))) 1 =
     sent (run test_config test_events init_state) 1 \<and>
   sent (step test_config (WsConnection 3)
           (processLocationUpdate test_config 50 (report ''B'' 5 5)
              (run test_config test_events init_state))) 3 =
     [Snapshot [reported ''A'' 4 4 40, reported ''B'' 5 5 50]]"
proof -
  let ?s = "run test_config test_events init_state"
  let ?s' = "processLocationUpdate test_config 50 (report ''B'' 5 5) ?s"
  have acc: "build_position 50 (report ''B'' 5 5) = Some (reported ''B'' 5 5 50)"
    by (simp add: build_position_report)
  have clients: "wsClients ?s = [1]" by (rule test_clients)
  have ready: "readyState ?s 1 = OPEN" by (rule test_ready)
  have fresh: "sent ?s 3 = []"
    using never_connected [of 3 test_events test_config] by (simp add: test_events_def)
  have snap: "map_values (devicePositions ?s') = [reported ''A'' 4 4 40, reported ''B'' 5 5 50]"
    by (simp add: processLocationUpdate_accepted [OF acc] test_positions map_values_def
        reported_def)
  note w = broadcast_fan_out [OF acc, where cfg = test_config and evs = test_events, unfolded Let_def]
  from w have 1: "sent ?s' 1 = sent ?s 1 @ [Update (reported ''B'' 5 5 50)]"
    using clients ready by simp
  from w have 2: "sent ?s' 2 = sent ?s 2"
    using clients by simp
  from w have "sent (step test_config (WsConnection 3) ?s') 3 =
      sent ?s 3 @ [Snapshot (map_values (devicePositions ?s'))]"
    using clients by simp
  with fresh snap have 3: "sent (step test_config (WsConnection 3) ?s') 3 =
      [Snapshot [reported ''A'' 4 4 40, reported ''B'' 5 5 50]]"
    by simp
  from w have 4: "sent (processLocationUpdate test_config 50 (report ''B'' 5 5)
           (step test_config (WsError 1) ?s)) 1 = sent ?s 1"
    by blast
  from acc 1 2 3 4 show ?thesis by blast
qed

section \<open>Pruning the positions table\<close>

lemma device_rows_distinct:
  "distinct (map row_id tbl) \<Longrightarrow> distinct (device_rows d tbl)"
  by (simp add: device_rows_def distinct_map distinct_filter)

lemma row_id_inj:
  "distinct (map row_id tbl) \<Longrightarrow> inj_on row_id (set tbl)"
  by (simp add: distinct_map)

lemma kept_iff:
  assumes "distinct (map row_id tbl)" and "set sel \<subseteq> set (device_rows d tbl)"
    and "r \<in> set tbl"
  shows "row_id r \<in> set (map row_id sel) \<longleftrightarrow> r \<in> set sel"
proof
  assume "row_id r \<in> set (map row_id sel)"
  then obtain k where k: "k \<in> set sel" "row_id k = row_id r" by auto
  with assms(2) have "k \<in> set tbl" by (auto simp add: device_rows_def)
  with row_id_inj [OF assms(1)] assms(3) k(2) have "k = r" by (auto dest: inj_onD)
  with k(1) show "r \<in> set sel" by simp
next
  assume "r \<in> set sel"
  then show "row_id r \<in> set (map row_id sel)" by simp
qed

lemma cleanup_device_rows:
  assumes "distinct (map row_id tbl)" and "set sel \<subseteq> set (device_rows d tbl)"
  shows "device_rows d (cleanup d (map row_id sel) tbl) = filter (\<lambda>r. r \<in> set sel) (device_rows d tbl)"
proof -
  have "filter (\<lambda>r. row_device r = d) (filter (\<lambda>r. \<not> (row_device r = d \<and> row_id r \<notin> set (map row_id sel))) tbl)
      = filter (\<lambda>r. r \<in> set sel) (filter (\<lambda>r. row_device r = d) tbl)"
    unfolding filter_filter
    by (rule filter_cong) (use kept_iff [OF assms] in auto)
  then show ?thesis by (simp add: device_rows_def cleanup_def)
qed

lemma cleanup_other_devices:
  "filter (\<lambda>r. row_device r \<noteq> d) (cleanup d ids tbl) = filter (\<lambda>r. row_device r \<noteq> d) tbl"
  unfolding cleanup_def filter_filter by (rule filter_cong) auto

lemma cleanup_kept_set:
  assumes "distinct (map row_id tbl)" and "set sel \<subseteq> set (device_rows d tbl)"
  shows "set (device_rows d (cleanup d (map row_id sel) tbl)) = set sel"
  using assms(2) by (auto simp add: cleanup_device_rows [OF assms])

lemma cleanup_kept_length:
  assumes "distinct (map row_id tbl)" and "set sel \<subseteq> set (device_rows d tbl)" and "distinct sel"
  shows "length (device_rows d (cleanup d (map row_id sel) tbl)) = length sel"
proof -
  have "distinct (device_rows d (cleanup d (map row_id sel) tbl))"
    by (simp add: cleanup_device_rows [OF assms(1,2)] device_rows_distinct [OF assms(1)])
  then have "length (device_rows d (cleanup d (map row_id sel) tbl)) =
      card (set (device_rows d (cleanup d (map row_id sel) tbl)))"
    by (rule distinct_card [symmetric])
  also have "\<dots> = card (set sel)" by (simp add: cleanup_kept_set [OF assms(1,2)])
  also have "\<dots> = length sel" using assms(3) by (rule distinct_card)
  finally show ?thesis .
qed

lemma cleanup_noop:
  assumes ids: "distinct (map row_id tbl)" and "0 \<le> n"
    and sel: "select_result n d tbl sel"
    and few: "length (device_rows d tbl) \<le> nat n"
  shows "cleanup d (map row_id sel) tbl = tbl"
proof -
  from sel have sub: "set sel \<subseteq> set (device_rows d tbl)" and dist: "distinct sel"
    and len: "length sel = limit_count n (length (device_rows d tbl))"
    by (simp_all add: select_result_def)
  from len few \<open>0 \<le> n\<close> have "length sel = length (device_rows d tbl)"
    by (simp add: limit_count_def)
  then have "card (set sel) = card (set (device_rows d tbl))"
    using dist device_rows_distinct [OF ids, of d] by (simp add: distinct_card)
  with sub have all: "set sel = set (device_rows d tbl)"
    by (simp add: card_subset_eq)
  have "filter (\<lambda>r. \<not> (row_device r = d \<and> row_id r \<notin> set (map row_id sel))) tbl = tbl"
    unfolding filter_id_conv
  proof
    fix r assume r: "r \<in> set tbl"
    show "\<not> (row_device r = d \<and> row_id r \<notin> set (map row_id sel))"
    proof
      assume a: "row_device r = d \<and> row_id r \<notin> set (map row_id sel)"
      with r have "r \<in> set (device_rows d tbl)" by (simp add: device_rows_def)
      with all have "r \<in> set sel" by simp
      with a show False by simp
    qed
  qed
  then show ?thesis by (simp add: cleanup_def)
qed

lemma cleanup_ids_distinct:
  "distinct (map row_id tbl) \<Longrightarrow> distinct (map row_id (cleanup d ids tbl))"
  by (simp add: cleanup_def distinct_map_filter)

lemma limit_count_le: "limit_count n len \<le> len"
  by (simp add: limit_count_def)

text \<open>
  The order the specification words is one of the orders the statement allows, and the
  answers the statement allows are exactly the first rows of the orders by descending
  timestamp.
\<close>

lemma spec_order_newest_first: "newest_first (spec_order rs)"
  unfolding newest_first_def spec_order_def sorted_wrt_rev
  using sorted_sort_key [of row_timestamp "sort_key row_id rs"]
  by (simp add: sorted_map)

lemma spec_order_set: "set (spec_order rs) = set rs"
  by (simp add: spec_order_def)

lemma spec_order_distinct: "distinct rs \<Longrightarrow> distinct (spec_order rs)"
  by (simp add: spec_order_def)

lemma spec_order_length: "length (spec_order rs) = length rs"
  by (simp add: spec_order_def)

lemma spec_selection_allowed:
  assumes "distinct (map row_id tbl)" and "0 \<le> n"
  shows "select_result n d tbl (take (nat n) (spec_order (device_rows d tbl)))"
proof -
  let ?L = "spec_order (device_rows d tbl)"
  let ?k = "nat n"
  have dist: "distinct ?L"
    using device_rows_distinct [OF assms(1)] by (rule spec_order_distinct)
  have srt: "sorted_wrt (\<lambda>a b. row_timestamp b \<le> row_timestamp a) (take ?k ?L @ drop ?k ?L)"
    using spec_order_newest_first [of "device_rows d tbl"] by (simp add: newest_first_def)
  have a: "distinct (take ?k ?L)" using dist by simp
  have b: "set (take ?k ?L) \<subseteq> set (device_rows d tbl)"
    using set_take_subset [of ?k ?L] by (simp add: spec_order_set)
  have c: "length (take ?k ?L) = limit_count n (length (device_rows d tbl))"
    using assms(2) by (simp add: limit_count_def spec_order_length)
  have e: "newest_first (take ?k ?L)"
    using srt unfolding newest_first_def sorted_wrt_append by blast
  have f: "row_timestamp r \<le> row_timestamp k"
    if "k \<in> set (take ?k ?L)" "r \<in> set (device_rows d tbl)" "r \<notin> set (take ?k ?L)" for k r
  proof -
    from that(2) have "r \<in> set (take ?k ?L) \<union> set (drop ?k ?L)"
      unfolding set_append [symmetric] append_take_drop_id by (simp add: spec_order_set)
    with that(3) have "r \<in> set (drop ?k ?L)" by blast
    with srt that(1) show ?thesis unfolding sorted_wrt_append by blast
  qed
  from a b c e f show ?thesis unfolding select_result_def by blast
qed

lemma select_result_iff_ordering:
  assumes ids: "distinct (map row_id tbl)"
  shows "select_result n d tbl sel \<longleftrightarrow>
     (\<exists>ord. distinct ord \<and> set ord = set (device_rows d tbl) \<and> newest_first ord
        \<and> sel = take (limit_count n (length ord)) ord)"
proof
  let ?D = "device_rows d tbl"
  have dD: "distinct ?D" using ids by (rule device_rows_distinct)
  assume sel: "select_result n d tbl sel"
  then have sub: "set sel \<subseteq> set ?D" and dist: "distinct sel"
    and len: "length sel = limit_count n (length ?D)"
    and srt: "newest_first sel"
    and newer: "\<forall>k \<in> set sel. \<forall>r \<in> set ?D. r \<notin> set sel \<longrightarrow> row_timestamp r \<le> row_timestamp k"
    by (simp_all add: select_result_def)
  let ?rest = "spec_order (filter (\<lambda>r. r \<notin> set sel) ?D)"
  let ?ord = "sel @ ?rest"
  have 1: "distinct ?ord"
    using dist dD by (auto simp add: spec_order_distinct spec_order_set)
  have 2: "set ?ord = set ?D"
    using sub by (auto simp add: spec_order_set)
  have 3: "newest_first ?ord"
    unfolding newest_first_def sorted_wrt_append
    using srt spec_order_newest_first [of "filter (\<lambda>r. r \<notin> set sel) ?D"] newer
    by (auto simp add: newest_first_def spec_order_set)
  have "length ?ord = length ?D"
    using 1 2 dD by (metis distinct_card)
  then have 4: "sel = take (limit_count n (length ?ord)) ?ord"
    using len by simp
  from 1 2 3 4 show "\<exists>ord. distinct ord \<and> set ord = set ?D \<and> newest_first ord
        \<and> sel = take (limit_count n (length ord)) ord"
    by blast
next
  let ?D = "device_rows d tbl"
  have dD: "distinct ?D" using ids by (rule device_rows_distinct)
  assume "\<exists>ord. distinct ord \<and> set ord = set ?D \<and> newest_first ord
        \<and> sel = take (limit_count n (length ord)) ord"
  then obtain ord where dist: "distinct ord" and st: "set ord = set ?D"
    and srt: "newest_first ord" and sel: "sel = take (limit_count n (length ord)) ord"
    by blast
  let ?k = "limit_count n (length ord)"
  have leq: "length ord = length ?D"
    using dist st dD by (metis distinct_card)
  have s2: "sorted_wrt (\<lambda>a b. row_timestamp b \<le> row_timestamp a) (take ?k ord @ drop ?k ord)"
    using srt by (simp add: newest_first_def)
  have a: "distinct sel" using dist sel by simp
  have b: "set sel \<subseteq> set ?D" using set_take_subset [of ?k ord] st sel by simp
  have c: "length sel = limit_count n (length ?D)"
    using sel leq limit_count_le [of n "length ord"] by simp
  have e: "newest_first sel"
    using s2 sel unfolding newest_first_def sorted_wrt_append by blast
  have f: "row_timestamp r \<le> row_timestamp k"
    if "k \<in> set sel" "r \<in> set ?D" "r \<notin> set sel" for k r
  proof -
    from that(2) st have "r \<in> set (take ?k ord) \<union> set (drop ?k ord)"
      unfolding set_append [symmetric] append_take_drop_id by simp
    with that(3) sel have "r \<in> set (drop ?k ord)" by blast
    with s2 that(1) sel show ?thesis unfolding sorted_wrt_append by blast
  qed
  from a b c e f show "select_result n d tbl sel" unfolding select_result_def by blast
qed

text \<open>
  C8, as stated, fails: the statement does not say which of two rows with the same
  timestamp goes first. With two rows of one device at timestamp 5 and a limit of 1, the
  subquery may answer the row with id 1; the clean-up then deletes the row with id 2, the
  newer row id, where the specification deletes the row with id 1.
\<close>

theorem tie_break_not_fixed:
  "\<not> (\<forall>sel. select_result 1 ''D1''
          [\<lparr>row_id = 1, row_device = ''D1'', row_timestamp = 5\<rparr>,
           \<lparr>row_id = 2, row_device = ''D1'', row_timestamp = 5\<rparr>] sel \<longrightarrow>
        cleanup ''D1'' (map row_id sel)
          [\<lparr>row_id = 1, row_device = ''D1'', row_timestamp = 5\<rparr>,
           \<lparr>row_id = 2, row_device = ''D1'', row_timestamp = 5\<rparr>]
        = spec_prune 1 ''D1''
          [\<lparr>row_id = 1, row_device = ''D1'', row_timestamp = 5\<rparr>,
           \<lparr>row_id = 2, row_device = ''D1'', row_timestamp = 5\<rparr>])"
proof
  let ?r1 = "\<lparr>row_id = 1, row_device = ''D1'', row_timestamp = 5\<rparr>"
  let ?r2 = "\<lparr>row_id = 2, row_device = ''D1'', row_timestamp = 5\<rparr>"
  assume a: "\<forall>sel. select_result 1 ''D1'' [?r1, ?r2] sel \<longrightarrow>
        cleanup ''D1'' (map row_id sel) [?r1, ?r2] = spec_prune 1 ''D1'' [?r1, ?r2]"
  have "select_result 1 ''D1'' [?r1, ?r2] [?r1]"
    by (simp add: select_result_def device_rows_def limit_count_def newest_first_def)
  with a have "cleanup ''D1'' (map row_id [?r1]) [?r1, ?r2] = spec_prune 1 ''D1'' [?r1, ?r2]"
    by blast
  moreover have "cleanup ''D1'' (map row_id [?r1]) [?r1, ?r2] = [?r1]"
    by (simp add: cleanup_def)
  moreover have "spec_prune 1 ''D1'' [?r1, ?r2] = [?r2]"
    by (simp add: spec_prune_def spec_order_def device_rows_def cleanup_def)
  ultimately show False by simp
qed

text \<open>
  C8, amended. On a table with unique row ids and a limit \<open>n \<ge> 0\<close>, whatever answer the
  subquery gives, the clean-up keeps \<open>min n\<close> (number of the device's rows) rows of the
  device, none of them older than a row it deletes, and leaves the rows of other devices
  alone; it deletes nothing when the device has at most \<open>n\<close> rows; and cleaning up again
  deletes nothing. Which rows of equal timestamp at the boundary are deleted is not
  determined.
\<close>

theorem cleanup_keeps_newest:
  assumes ids: "distinct (map row_id tbl)" and n: "0 \<le> n"
    and sel: "select_result n d tbl sel"
  shows "(let tbl' = cleanup d (map row_id sel) tbl; rows = device_rows d tbl; kept = device_rows d tbl'
          in length kept = min (nat n) (length rows)
             \<and> set kept \<subseteq> set rows
             \<and> (\<forall>k \<in> set kept. \<forall>r \<in> set rows - set kept. row_timestamp r \<le> row_timestamp k)
             \<and> filter (\<lambda>r. row_device r \<noteq> d) tbl' = filter (\<lambda>r. row_device r \<noteq> d) tbl
             \<and> (length rows \<le> nat n \<longrightarrow> tbl' = tbl)
             \<and> (\<forall>sel'. select_result n d tbl' sel' \<longrightarrow> cleanup d (map row_id sel') tbl' = tbl'))"
proof -
  let ?tbl' = "cleanup d (map row_id sel) tbl"
  let ?rows = "device_rows d tbl"
  let ?kept = "device_rows d ?tbl'"
  from sel have sub: "set sel \<subseteq> set ?rows" and dist: "distinct sel"
    and len: "length sel = limit_count n (length ?rows)"
    and newer: "\<forall>k \<in> set sel. \<forall>r \<in> set ?rows. r \<notin> set sel \<longrightarrow> row_timestamp r \<le> row_timestamp k"
    by (simp_all add: select_result_def)
  have kept: "set ?kept = set sel" by (rule cleanup_kept_set [OF ids sub])
  have 1: "length ?kept = min (nat n) (length ?rows)"
    using cleanup_kept_length [OF ids sub dist] len n by (simp add: limit_count_def)
  have 2: "set ?kept \<subseteq> set ?rows" using kept sub by simp
  have 3: "\<forall>k \<in> set ?kept. \<forall>r \<in> set ?rows - set ?kept. row_timestamp r \<le> row_timestamp k"
    using newer unfolding kept by blast
  have 4: "filter (\<lambda>r. row_device r \<noteq> d) ?tbl' = filter (\<lambda>r. row_device r \<noteq> d) tbl"
    by (rule cleanup_other_devices)
  have 5: "length ?rows \<le> nat n \<longrightarrow> ?tbl' = tbl"
    using cleanup_noop [OF ids n sel] by blast
  have 6: "cleanup d (map row_id sel') ?tbl' = ?tbl'" if "select_result n d ?tbl' sel'" for sel'
  proof (rule cleanup_noop [OF _ n that])
    show "distinct (map row_id ?tbl')" using ids by (rule cleanup_ids_distinct)
    show "length ?kept \<le> nat n" using 1 by simp
  qed
  from 1 2 3 4 5 6 show ?thesis by (simp add: Let_def)
qed

theorem cleanup_keeps_newest_witness:
  "distinct (map row_id test_table) \<and>
   select_result 2 ''D1'' test_table
     [\<lparr>row_id = 3, row_device = ''D1'', row_timestamp = 7\<rparr>,
      \<lparr>row_id = 1, row_device = ''D1'', row_timestamp = 5\<rparr>] \<and>
   cleanup ''D1'' [3, 1] test_table =
     [\<lparr>row_id = 1, row_device = ''D1'', row_timestamp = 5\<rparr>,
      \<lparr>row_id = 3, row_device = ''D1'', row_timestamp = 7\<rparr>,
      \<lparr>row_id = 4, row_device = ''D2'', row_timestamp = 1\<rparr>] \<and>
   length (device_rows ''D1'' (cleanup ''D1'' [3, 1] test_table)) = 2 \<and>
   cleanup ''D1'' [3, 1] (cleanup ''D1'' [3, 1] test_table) = cleanup ''D1'' [3, 1] test_table"
proof -
  let ?sel = "[\<lparr>row_id = 3, row_device = ''D1'', row_timestamp = 7\<rparr>,
      \<lparr>row_id = 1, row_device = ''D1'', row_timestamp = 5\<rparr>]"
  have ids: "distinct (map row_id test_table)" by (simp add: test_table_def)
  have sel: "select_result 2 ''D1'' test_table ?sel"
    by (simp add: select_result_def test_table_def device_rows_def limit_count_def
        newest_first_def)
  have res: "cleanup ''D1'' [3, 1] test_table =
     [\<lparr>row_id = 1, row_device = ''D1'', row_timestamp = 5\<rparr>,
      \<lparr>row_id = 3, row_device = ''D1'', row_timestamp = 7\<rparr>,
      \<lparr>row_id = 4, row_device = ''D2'', row_timestamp = 1\<rparr>]"
    by (simp add: cleanup_def test_table_def)
  have sel': "select_result 2 ''D1'' (cleanup ''D1'' [3, 1] test_table) ?sel"
    unfolding res
    by (simp add: select_result_def device_rows_def limit_count_def newest_first_def)
  have rows: "length (device_rows ''D1'' test_table) = 3"
    by (simp add: test_table_def device_rows_def)
  note w = cleanup_keeps_newest [OF ids _ sel, unfolded Let_def, simplified]
  from w rows have 1: "length (device_rows ''D1'' (cleanup ''D1'' [3, 1] test_table)) = 2"
    by simp
  from w sel' have 2: "cleanup ''D1'' [3, 1] (cleanup ''D1'' [3, 1] test_table) =
      cleanup ''D1'' [3, 1] test_table"
    by fastforce
  from ids sel res 1 2 show ?thesis by blast
qed

end
